theory Spec2Isabelle
  imports Main "HOL-Library.Word"
begin

section \<open>Filename sanitising\<close>

text \<open>
  A JavaScript string is a sequence of 16-bit code units.  The source is
  \<^verbatim>\<open>text.replace(/[^a-z0-9\(\)\[\]\-, ]/gi, '_')\<close>: with the \<^verbatim>\<open>g\<close> flag every
  code unit outside the class is replaced, one by one; with the \<^verbatim>\<open>i\<close> flag (and no
  \<^verbatim>\<open>u\<close> flag) a code unit is in the class when its upper-case form is the upper-case
  form of a member, and a non-ASCII code unit is never folded onto an ASCII one, so the
  class holds exactly the ASCII letters of both cases, the digits and the seven listed
  punctuation characters.
\<close>

type_synonym code_unit = "16 word"
type_synonym js_string = "code_unit list"

definition in_class :: "code_unit \<Rightarrow> bool" where
  "in_class c \<longleftrightarrow>
     (0x61 \<le> c \<and> c \<le> 0x7A) \<or> (0x41 \<le> c \<and> c \<le> 0x5A) \<or> (0x30 \<le> c \<and> c \<le> 0x39) \<or>
     c = 0x28 \<or> c = 0x29 \<or> c = 0x5B \<or> c = 0x5D \<or> c = 0x2D \<or> c = 0x2C \<or> c = 0x20"

definition underscore :: code_unit where
  "underscore = 0x5F"

definition sanitizeFilename :: "js_string \<Rightarrow> js_string" where
  "sanitizeFilename text = map (\<lambda>c. if in_class c then c else underscore) text"

text \<open>The characters a sanitised name may hold, as the description of the function lists them.\<close>

definition ascii_letter :: "code_unit \<Rightarrow> bool" where
  "ascii_letter c \<longleftrightarrow> (0x41 \<le> c \<and> c \<le> 0x5A) \<or> (0x61 \<le> c \<and> c \<le> 0x7A)"

definition ascii_digit :: "code_unit \<Rightarrow> bool" where
  "ascii_digit c \<longleftrightarrow> 0x30 \<le> c \<and> c \<le> 0x39"

definition output_char :: "code_unit \<Rightarrow> bool" where
  "output_char c \<longleftrightarrow> ascii_letter c \<or> ascii_digit c \<or> c = 0x28 \<or> c = 0x29 \<or>
     c = 0x5B \<or> c = 0x5D \<or> c = 0x2D \<or> c = 0x2C \<or> c = 0x20 \<or> c = 0x5F"

section \<open>The tab pool\<close>

text \<open>
  A tab handle is the index of its page in the order the browser created the pages; a
  request is the index of its \<^verbatim>\<open>create()\<close> call, and stands for the \<^verbatim>\<open>resolve\<close>
  function that call pushed on \<^verbatim>\<open>this.pending\<close>.
\<close>

type_synonym tab = nat
type_synonym req = nat

text \<open>The three states of a JavaScript promise.\<close>

datatype future = Unsettled | Fulfilled tab | Rejected

text \<open>
  Where the background task of the constructor is suspended:
  in \<^verbatim>\<open>timers.setTimeout(100)\<close> between two passes; at the \<^verbatim>\<open>await\<close> of
  \<^verbatim>\<open>cullDeadTabs()\<close>; in \<^verbatim>\<open>browser.newPage()\<close> for a dequeued request; in
  \<^verbatim>\<open>tab.setViewport\<close> for that request and its new tab; or nowhere any more, because
  one of the two browser calls rejected and nothing catches the rejection.
\<close>

datatype pc = Sleeping | AfterCull | AwaitNewPage req | AwaitViewport req tab | Dead req

record pool =
  tabs :: "tab list"
  pending :: "req list"
  max_tabs :: nat
  count :: nat
  pages :: "bool list"
  futures :: "future list"
  resolved :: "(req \<times> tab) list"
  pc :: pc

text \<open>
  \<open>tabs\<close>, \<open>pending\<close>, \<open>max_tabs\<close> (the field \<^verbatim>\<open>max\<close>) and \<open>count\<close> are the
  fields of the class.  \<open>pages\<close> is the browser: one entry per page made by
  \<^verbatim>\<open>newPage()\<close>, true once the page is closed.  \<open>futures\<close> holds the promise of
  every \<^verbatim>\<open>create()\<close> call, and \<open>resolved\<close> lists the calls \<^verbatim>\<open>pending(tab)\<close> in the
  order they were made: the request and the tab it was given.
\<close>

definition isClosed :: "bool list \<Rightarrow> tab \<Rightarrow> bool" where
  "isClosed ps t \<longleftrightarrow> t < length ps \<and> ps ! t"

definition splice1 :: "nat \<Rightarrow> 'a list \<Rightarrow> 'a list" where
  "splice1 i xs = take i xs @ drop (Suc i) xs"

text \<open>
  \<^verbatim>\<open>for (const [i, tab] of this.tabs.entries()) if (tab.isClosed()) this.tabs.splice(i, 1)\<close>:
  the array iterator reads the live array, compares its index with the current length,
  and moves on to \<open>i + 1\<close> whether or not the body removed the entry at \<open>i\<close>.
\<close>

function cull_from :: "bool list \<Rightarrow> nat \<Rightarrow> tab list \<Rightarrow> tab list" where
  "cull_from ps i ts =
     (if i < length ts
      then (if isClosed ps (ts ! i) then cull_from ps (Suc i) (splice1 i ts)
            else cull_from ps (Suc i) ts)
      else ts)"
  by pat_completeness auto
termination
  by (relation "measure (\<lambda>(ps, i, ts). length ts - i)") (auto simp: splice1_def)

declare cull_from.simps [simp del]

definition cullDeadTabs :: "bool list \<Rightarrow> tab list \<Rightarrow> tab list" where
  "cullDeadTabs ps ts = cull_from ps 0 ts"

text \<open>\<^verbatim>\<open>create()\<close>: a new promise whose resolver goes to the end of the queue.\<close>

definition create :: "pool \<Rightarrow> pool" where
  "create s = s\<lparr>pending := pending s @ [length (futures s)],
               futures := futures s @ [Unsettled]\<rparr>"

text \<open>Somebody closes a page of the browser (\<^verbatim>\<open>tab.close()\<close> by the holder).\<close>

definition close :: "tab \<Rightarrow> pool \<Rightarrow> pool" where
  "close t s = (if t < length (pages s) then s\<lparr>pages := (pages s)[t := True]\<rparr> else s)"

text \<open>Calling a promise's \<^verbatim>\<open>resolve\<close>: only an unsettled promise changes.\<close>

definition settle :: "tab \<Rightarrow> future \<Rightarrow> future" where
  "settle t f = (case f of Unsettled \<Rightarrow> Fulfilled t | _ \<Rightarrow> f)"

definition resolve :: "req \<Rightarrow> tab \<Rightarrow> future list \<Rightarrow> future list" where
  "resolve p t fs = (if p < length fs then fs[p := settle t (fs ! p)] else fs)"

text \<open>
  The head of the loop of \<^verbatim>\<open>createPendingTabs\<close>, run without interruption up to the
  next \<^verbatim>\<open>await\<close>: the test \<^verbatim>\<open>this.tabs.length < this.max\<close>, the \<^verbatim>\<open>shift()\<close>,
  the \<^verbatim>\<open>return\<close> on an empty queue (after which the task sleeps), the call of
  \<^verbatim>\<open>newPage()\<close>.
\<close>

definition while_head :: "pool \<Rightarrow> pool" where
  "while_head s =
     (if length (tabs s) < max_tabs s
      then (case pending s of
              [] \<Rightarrow> s\<lparr>pc := Sleeping\<rparr>
            | p # ps \<Rightarrow> s\<lparr>pending := ps, pc := AwaitNewPage p\<rparr>)
      else s\<lparr>pc := Sleeping\<rparr>)"

text \<open>
  The background task runs on from where it is suspended to its next suspension:
  the timer fires and \<^verbatim>\<open>cullDeadTabs\<close> runs; or the loop is entered; or the new page
  arrives and \<^verbatim>\<open>setViewport\<close> is called; or the viewport is set, and the tab is pushed,
  the request resolved with it, the counter incremented and the loop head run again.
\<close>

definition resume :: "pool \<Rightarrow> pool" where
  "resume s =
     (case pc s of
        Sleeping \<Rightarrow> s\<lparr>tabs := cullDeadTabs (pages s) (tabs s), pc := AfterCull\<rparr>
      | AfterCull \<Rightarrow> while_head s
      | AwaitNewPage p \<Rightarrow> s\<lparr>pages := pages s @ [False], pc := AwaitViewport p (length (pages s))\<rparr>
      | AwaitViewport p t \<Rightarrow>
          while_head (s\<lparr>tabs := tabs s @ [t],
                        futures := resolve p t (futures s),
                        resolved := resolved s @ [(p, t)],
                        count := count s + 1\<rparr>)
      | Dead p \<Rightarrow> s)"

text \<open>
  The browser call the task waits for rejects: the exception leaves
  \<^verbatim>\<open>createPendingTabs\<close> and the endless loop of the constructor, which has no handler.
\<close>

definition reject :: "pool \<Rightarrow> pool" where
  "reject s =
     (case pc s of
        AwaitNewPage p \<Rightarrow> s\<lparr>pc := Dead p\<rparr>
      | AwaitViewport p t \<Rightarrow> s\<lparr>pc := Dead p\<rparr>
      | _ \<Rightarrow> s)"

datatype event = Create | Close tab | Resume | Reject

fun step :: "event \<Rightarrow> pool \<Rightarrow> pool" where
  "step Create s = create s"
| "step (Close t) s = close t s"
| "step Resume s = resume s"
| "step Reject s = reject s"

fun run :: "pool \<Rightarrow> event list \<Rightarrow> pool" where
  "run s [] = s"
| "run s (e # es) = run (step e s) es"

text \<open>
  The pool when \<^verbatim>\<open>new Tabs(browser, max)\<close> returns: the constructor has started the
  background task, which has run \<^verbatim>\<open>cullDeadTabs\<close> on the empty array and is suspended
  at its \<^verbatim>\<open>await\<close>.
\<close>

definition new_Tabs :: "nat \<Rightarrow> pool" where
  "new_Tabs m = \<lparr>tabs = [], pending = [], max_tabs = m, count = 0,
                 pages = [], futures = [], resolved = [], pc = AfterCull\<rparr>"

subsection \<open>Invariants and observations of the pool\<close>

text \<open>
  The open set is within the capacity, and strictly within it while a tab is being made
  for a dequeued request.
\<close>

definition cap_inv :: "pool \<Rightarrow> bool" where
  "cap_inv s \<longleftrightarrow> length (tabs s) \<le> max_tabs s \<and>
     (case pc s of AwaitNewPage p \<Rightarrow> length (tabs s) < max_tabs s
                 | AwaitViewport p t \<Rightarrow> length (tabs s) < max_tabs s
                 | _ \<Rightarrow> True)"

text \<open>The request the background task has dequeued and not yet resolved, if any.\<close>

definition inflight :: "pc \<Rightarrow> req list" where
  "inflight c = (case c of AwaitNewPage p \<Rightarrow> [p] | AwaitViewport p t \<Rightarrow> [p] | Dead p \<Rightarrow> [p] | _ \<Rightarrow> [])"

text \<open>
  The requests resolved, the one in flight and the ones queued are, in this order, all
  the \<^verbatim>\<open>create()\<close> calls in the order they were made; the promises of the resolved
  ones are fulfilled with the tab they were given and all others are unsettled.
\<close>

definition fifo_inv :: "pool \<Rightarrow> bool" where
  "fifo_inv s \<longleftrightarrow>
     map fst (resolved s) @ inflight (pc s) @ pending s = [0..<length (futures s)] \<and>
     futures s = map (\<lambda>(r, t). Fulfilled t) (resolved s)
                   @ replicate (length (inflight (pc s)) + length (pending s)) Unsettled"

text \<open>
  The tabs handed out are the first \<open>count\<close> pages of the browser, in order; the
  browser has made one page more than \<open>count\<close> exactly while the viewport of a new
  page is being set.
\<close>

definition count_inv :: "pool \<Rightarrow> bool" where
  "count_inv s \<longleftrightarrow>
     map snd (resolved s) = [0..<count s] \<and>
     (case pc s of
        AwaitViewport p t \<Rightarrow> t = count s \<and> length (pages s) = Suc (count s)
      | Dead p \<Rightarrow> True
      | _ \<Rightarrow> length (pages s) = count s)"

text \<open>
  Request \<open>a\<close> was resolved before request \<open>b\<close>; a request whose promise is no
  longer unsettled.
\<close>

definition served_before :: "pool \<Rightarrow> req \<Rightarrow> req \<Rightarrow> bool" where
  "served_before s a b \<longleftrightarrow> a \<in> set (takeWhile (\<lambda>r. r \<noteq> b) (map fst (resolved s)))"

definition is_settled :: "pool \<Rightarrow> req \<Rightarrow> bool" where
  "is_settled s r \<longleftrightarrow> r < length (futures s) \<and> futures s ! r \<noteq> Unsettled"

text \<open>
  A pool between the steps of a pass whose open set is full and holds no closed tab; a
  pool whose background task has ended.
\<close>

definition starved :: "pool \<Rightarrow> bool" where
  "starved s \<longleftrightarrow> (pc s = Sleeping \<or> pc s = AfterCull) \<and> length (tabs s) = max_tabs s \<and>
     (\<forall>t \<in> set (tabs s). \<not> isClosed (pages s) t)"

definition is_dead :: "pool \<Rightarrow> bool" where
  "is_dead s = (case pc s of Dead p \<Rightarrow> True | _ \<Rightarrow> False)"

text \<open>
  Event sequences used below.  \<open>first_pass\<close>: three \<^verbatim>\<open>create()\<close> calls right after
  the constructor, then the background task runs until it sleeps.  \<open>second_pass\<close>: the
  first tab is closed, the timer fires and the task runs until it sleeps again.
\<close>

definition first_pass :: "event list" where
  "first_pass = [Create, Create, Create, Resume, Resume, Resume, Resume, Resume]"

definition second_pass :: "event list" where
  "second_pass = [Close 0, Resume, Resume, Resume, Resume]"

definition fifo_run :: "event list" where
  "fifo_run = [Create, Create, Resume, Resume, Resume, Close 0, Resume, Resume, Resume, Resume]"

definition full_pool :: pool where
  "full_pool = run (new_Tabs 1) [Create, Create, Resume, Resume, Resume]"

definition dead_pool :: pool where
  "dead_pool = run (new_Tabs 1) [Create, Resume, Reject]"

section \<open>The scraper\<close>

text \<open>
  What a JavaScript \<^verbatim>\<open>throw\<close> can carry: the repository's own \<^verbatim>\<open>NotLoggedInError\<close>,
  any other instance of \<^verbatim>\<open>Error\<close> with its message (the browser's and the file
  system's failures are such), or a value that is not an \<^verbatim>\<open>Error\<close>.  The outcome of
  a call that can throw is a sum, the thrown value on the left.
\<close>

datatype thrown = NotLoggedInError | Error string | NonError

type_synonym 'a outcome = "thrown + 'a"



subsection \<open>The retry loop of \<^verbatim>\<open>savePages\<close>\<close>













subsection \<open>The guards of the scraping operations\<close>

text \<open>
  \<^verbatim>\<open>Promise.all\<close> rejects with the first rejection and fulfils when every member has;
  the list is in the order in which the members settle.
\<close>

fun promise_all :: "unit outcome list \<Rightarrow> unit outcome" where
  "promise_all [] = Inr ()"
| "promise_all (Inl e # rs) = Inl e"
| "promise_all (Inr _ # rs) = promise_all rs"

text \<open>
  \<^verbatim>\<open>if (!this.tabs) throw new NotLoggedInError()\<close> in front of the rest of a method.
  The first argument says whether \<^verbatim>\<open>this.tabs\<close> is set; the rest of each method is
  talk with the browser and the file system, and is given by its outcome.
\<close>

definition guard :: "bool \<Rightarrow> unit outcome \<Rightarrow> unit outcome" where
  "guard tabs_set rest = (if \<not> tabs_set then Inl NotLoggedInError else rest)"

text \<open>\<^verbatim>\<open>await first; second\<close>: what \<open>first\<close> throws ends the method.\<close>

definition and_then :: "unit outcome \<Rightarrow> unit outcome \<Rightarrow> unit outcome" where
  "and_then first second = (case first of Inl e \<Rightarrow> Inl e | Inr _ \<Rightarrow> second)"

text \<open>
  The operations that use the pool.  Each starts with the guard.  \<^verbatim>\<open>savePages\<close> then
  lists the pages of the class and joins one retry loop per page (given by their
  outcomes); \<^verbatim>\<open>saveMessagesInbox\<close>, \<^verbatim>\<open>saveMessagesDrafts\<close> and
  \<^verbatim>\<open>saveActivitiesAssignments\<close> then make their directory (the last one on its first
  page only) and walk the list of the portal; the others go straight to the browser.
\<close>

definition savePages :: "bool \<Rightarrow> unit outcome \<Rightarrow> unit outcome list \<Rightarrow> unit outcome" where
  "savePages tabs_set listing page_loops =
     guard tabs_set (and_then listing (promise_all page_loops))"

definition saveMessagesInbox :: "bool \<Rightarrow> unit outcome \<Rightarrow> unit outcome \<Rightarrow> unit outcome" where
  "saveMessagesInbox tabs_set mkdir rest = guard tabs_set (and_then mkdir rest)"

definition saveMessagesDrafts :: "bool \<Rightarrow> unit outcome \<Rightarrow> unit outcome \<Rightarrow> unit outcome" where
  "saveMessagesDrafts tabs_set mkdir rest = guard tabs_set (and_then mkdir rest)"

definition saveActivitiesAssignmentWork :: "bool \<Rightarrow> unit outcome \<Rightarrow> unit outcome" where
  "saveActivitiesAssignmentWork tabs_set rest = guard tabs_set rest"

definition saveActivitiesAssignments :: "bool \<Rightarrow> unit outcome \<Rightarrow> unit outcome \<Rightarrow> unit outcome" where
  "saveActivitiesAssignments tabs_set mkdir rest = guard tabs_set (and_then mkdir rest)"

definition saveActivitiesDiscussions :: "bool \<Rightarrow> unit outcome \<Rightarrow> unit outcome" where
  "saveActivitiesDiscussions tabs_set rest = guard tabs_set rest"

definition saveGrades :: "bool \<Rightarrow> unit outcome \<Rightarrow> unit outcome" where
  "saveGrades tabs_set rest = guard tabs_set rest"

text \<open>
  \<^verbatim>\<open>saveMessages\<close> and \<^verbatim>\<open>saveActivities\<close> have no guard: each awaits
  \<^verbatim>\<open>fs.mkdir\<close> of its directory first, then joins its two sub-operations.  The join
  takes the rejection that comes first in time.  While the pool is unset both
  sub-operations reject at their guard, at once and in the order of the calls; otherwise
  either may settle first, which the argument \<open>second_first\<close> says.
\<close>

definition settling_order :: "bool \<Rightarrow> bool \<Rightarrow> 'a \<Rightarrow> 'a \<Rightarrow> 'a list" where
  "settling_order tabs_set second_first x y = (if tabs_set \<and> second_first then [y, x] else [x, y])"

definition saveMessages ::
  "bool \<Rightarrow> unit outcome \<Rightarrow> bool \<Rightarrow> unit outcome \<Rightarrow> unit outcome \<Rightarrow> unit outcome \<Rightarrow> unit outcome
     \<Rightarrow> unit outcome" where
  "saveMessages tabs_set mkdir second_first inbox_mkdir inbox drafts_mkdir drafts =
     and_then mkdir
       (promise_all (settling_order tabs_set second_first
          (saveMessagesInbox tabs_set inbox_mkdir inbox)
          (saveMessagesDrafts tabs_set drafts_mkdir drafts)))"

definition saveActivities ::
  "bool \<Rightarrow> unit outcome \<Rightarrow> bool \<Rightarrow> unit outcome \<Rightarrow> unit outcome \<Rightarrow> unit outcome
     \<Rightarrow> unit outcome" where
  "saveActivities tabs_set mkdir second_first assignments_mkdir assignments discussions =
     and_then mkdir
       (promise_all (settling_order tabs_set second_first
          (saveActivitiesAssignments tabs_set assignments_mkdir assignments)
          (saveActivitiesDiscussions tabs_set discussions)))"

text \<open>
  \<^verbatim>\<open>saveClass\<close>: the guard, the visit of the class page (with the \<^verbatim>\<open>fs.mkdir\<close> of
  the directory of the class), then the join of the four sections (given by their outcomes
  in settling order).  \<^verbatim>\<open>saveClasses\<close>: the guard, the listing of the classes, then
  the join of one \<^verbatim>\<open>saveClass\<close> per class.
\<close>

definition saveClass :: "bool \<Rightarrow> unit outcome \<Rightarrow> unit outcome list \<Rightarrow> unit outcome" where
  "saveClass tabs_set visit sections = guard tabs_set (and_then visit (promise_all sections))"

definition saveClasses :: "bool \<Rightarrow> unit outcome \<Rightarrow> unit outcome list \<Rightarrow> unit outcome" where
  "saveClasses tabs_set listing classes = guard tabs_set (and_then listing (promise_all classes))"

subsection \<open>The entry point\<close>


















section \<open>Culling dead tabs\<close>

text \<open>Culling only removes entries, and removes none when no tab of the array is closed.\<close>

lemma length_cull_from: "length (cull_from ps i ts) \<le> length ts"
proof (induction ps i ts rule: cull_from.induct)
  case (1 ps i ts)
  show ?case
  proof (cases "i < length ts")
    case False
    then show ?thesis by (simp add: cull_from.simps)
  next
    case True
    show ?thesis
    proof (cases "isClosed ps (ts ! i)")
      case True
      with \<open>i < length ts\<close> 1(1) have "length (cull_from ps (Suc i) (splice1 i ts)) \<le> length (splice1 i ts)"
        by simp
      also have "\<dots> \<le> length ts" by (simp add: splice1_def)
      finally show ?thesis using True \<open>i < length ts\<close> by (subst cull_from.simps) simp
    next
      case False
      with \<open>i < length ts\<close> 1(2) show ?thesis by (subst cull_from.simps) simp
    qed
  qed
qed

lemma cull_from_none_closed:
  "\<forall>t \<in> set ts. \<not> isClosed ps t \<Longrightarrow> cull_from ps i ts = ts"
proof (induction ps i ts rule: cull_from.induct)
  case (1 ps i ts)
  show ?case
  proof (cases "i < length ts")
    case False
    then show ?thesis by (simp add: cull_from.simps)
  next
    case True
    then have nc: "\<not> isClosed ps (ts ! i)" using 1(3) by simp
    with True 1(2) 1(3) show ?thesis by (subst cull_from.simps) simp
  qed
qed

lemmas pool_eval = new_Tabs_def create_def close_def resume_def reject_def while_head_def
  resolve_def settle_def cullDeadTabs_def cull_from.simps isClosed_def splice1_def

text \<open>
  C3.  The specification asks that after one call of \<^verbatim>\<open>cullDeadTabs\<close> every handle
  whose tab is closed has left the open set, and in particular that two adjacent handles
  that both closed are both removed.  The code does not do this.  The iterator keeps its
  index after \<^verbatim>\<open>splice(i, 1)\<close>, so the entry that slides into position \<open>i\<close> is never
  looked at: on the array of tabs 0 and 1, both closed, the call removes tab 0 and returns
  with the closed tab 1 still in the array.  The same happens in the pool: with capacity
  2, two requests are served, both tabs are closed, and when the next pass has ended the
  open set still holds the closed tab 1.
\<close>

theorem cull_skips_adjacent_closed_tab:
  "cullDeadTabs [True, True] [0, 1] = [1] \<and>
   pc (run (new_Tabs 2) [Create, Create, Resume, Resume, Resume, Resume, Resume,
                         Close 0, Close 1, Resume, Resume]) = Sleeping \<and>
   tabs (run (new_Tabs 2) [Create, Create, Resume, Resume, Resume, Resume, Resume,
                           Close 0, Close 1, Resume, Resume]) = [1] \<and>
   isClosed (pages (run (new_Tabs 2) [Create, Create, Resume, Resume, Resume, Resume, Resume,
                                      Close 0, Close 1, Resume, Resume])) 1"
  by (simp add: pool_eval)

section \<open>The capacity of the pool\<close>

lemma cap_inv_while_head:
  "length (tabs s) \<le> max_tabs s \<Longrightarrow> cap_inv (while_head s)"
  by (auto simp: cap_inv_def while_head_def split: list.splits)

lemma cap_inv_step: "cap_inv s \<Longrightarrow> cap_inv (step e s)"
proof (cases e)
  case Create
  assume "cap_inv s"
  then show ?thesis using Create by (auto simp: cap_inv_def create_def split: pc.splits)
next
  case (Close t)
  assume "cap_inv s"
  then show ?thesis using Close by (auto simp: cap_inv_def close_def split: pc.splits)
next
  case Resume
  assume a: "cap_inv s"
  show ?thesis
  proof (cases "pc s")
    case Sleeping
    have "length (cullDeadTabs (pages s) (tabs s)) \<le> length (tabs s)"
      by (simp add: cullDeadTabs_def length_cull_from)
    with a Sleeping Resume show ?thesis by (simp add: cap_inv_def resume_def)
  next
    case AfterCull
    from a have "length (tabs s) \<le> max_tabs s" by (simp add: cap_inv_def)
    then have "cap_inv (while_head s)" by (rule cap_inv_while_head)
    with AfterCull Resume show ?thesis by (simp add: resume_def)
  next
    case (AwaitNewPage p)
    with a Resume show ?thesis by (simp add: resume_def cap_inv_def)
  next
    case (AwaitViewport p t)
    with a have "length (tabs s) < max_tabs s" by (simp add: cap_inv_def)
    then have "cap_inv (while_head (s\<lparr>tabs := tabs s @ [t], futures := resolve p t (futures s),
        resolved := resolved s @ [(p, t)], count := count s + 1\<rparr>))"
      by (intro cap_inv_while_head) simp
    with AwaitViewport Resume show ?thesis by (simp add: resume_def)
  next
    case (Dead p)
    with a Resume show ?thesis by (simp add: resume_def)
  qed
next
  case Reject
  assume "cap_inv s"
  then show ?thesis using Reject by (auto simp: cap_inv_def reject_def split: pc.splits)
qed

lemma cap_inv_run: "cap_inv s \<Longrightarrow> cap_inv (run s evs)"
  by (induction evs arbitrary: s) (simp_all add: cap_inv_step)

lemma max_tabs_step: "max_tabs (step e s) = max_tabs s"
  by (cases e) (auto simp: create_def close_def resume_def reject_def while_head_def
      split: pc.splits list.splits)

lemma max_tabs_run: "max_tabs (run s evs) = max_tabs s"
  by (induction evs arbitrary: s) (simp_all add: max_tabs_step)

lemma cap_inv_new: "cap_inv (new_Tabs m)"
  by (simp add: cap_inv_def new_Tabs_def)

text \<open>
  C1.  Capacity invariant: whatever \<^verbatim>\<open>create()\<close> calls, closures of tabs, steps of
  the background task and failures of the browser happen to a pool built with capacity
  \<open>m\<close>, in whatever order, the open set \<open>tabs\<close> never holds more than \<open>m\<close> handles,
  and the capacity stays \<open>m\<close>.  It holds in every state, so in particular whenever a
  pass has ended.
\<close>

theorem capacity_invariant:
  "length (tabs (run (new_Tabs m) evs)) \<le> m \<and> max_tabs (run (new_Tabs m) evs) = m"
proof -
  have "cap_inv (run (new_Tabs m) evs)" by (rule cap_inv_run [OF cap_inv_new])
  moreover have "max_tabs (run (new_Tabs m) evs) = m"
    by (simp add: max_tabs_run) (simp add: new_Tabs_def)
  ultimately show ?thesis by (simp add: cap_inv_def)
qed

theorem capacity_invariant_witness:
  "length (tabs (run (new_Tabs 1) [Create, Create, Resume, Resume, Resume, Resume])) \<le> 1 \<and>
   max_tabs (run (new_Tabs 1) [Create, Create, Resume, Resume, Resume, Resume]) = 1"
  using capacity_invariant [of 1 "[Create, Create, Resume, Resume, Resume, Resume]"] by simp

section \<open>Service order\<close>

lemma upt_prefix: "xs @ ys = [0..<n] \<Longrightarrow> xs = [0..<length xs]"
proof -
  assume a: "xs @ ys = [0..<n]"
  then have "length xs \<le> n" by (metis length_append length_upt le_add1 diff_zero)
  have "xs = take (length xs) (xs @ ys)" by simp
  also have "\<dots> = take (length xs) [0..<n]" by (simp only: a)
  also have "\<dots> = [0..<length xs]" using \<open>length xs \<le> n\<close> by (simp add: take_upt)
  finally show ?thesis .
qed

lemma fifo_inv_while_head:
  assumes "map fst (resolved s) @ pending s = [0..<length (futures s)]"
    and "futures s = map (\<lambda>(r, t). Fulfilled t) (resolved s)
                   @ replicate (length (pending s)) Unsettled"
  shows "fifo_inv (while_head s)"
  using assms by (auto simp: fifo_inv_def while_head_def inflight_def split: list.splits)

lemma fifo_inv_create: "fifo_inv s \<Longrightarrow> fifo_inv (create s)"
proof -
  assume a: "fifo_inv s"
  let ?n = "length (futures s)" and ?j = "length (inflight (pc s)) + length (pending s)"
  from a have 1: "map fst (resolved s) @ inflight (pc s) @ pending s = [0..<?n]"
    and 2: "futures s = map (\<lambda>(r, t). Fulfilled t) (resolved s) @ replicate ?j Unsettled"
    by (simp_all add: fifo_inv_def)
  have "futures s @ [Unsettled]
      = (map (\<lambda>(r, t). Fulfilled t) (resolved s) @ replicate ?j Unsettled) @ [Unsettled]"
    using 2 by simp
  also have "\<dots> = map (\<lambda>(r, t). Fulfilled t) (resolved s) @ replicate (Suc ?j) Unsettled"
    by (simp add: replicate_append_same)
  finally have 3: "futures s @ [Unsettled]
      = map (\<lambda>(r, t). Fulfilled t) (resolved s) @ replicate (Suc ?j) Unsettled" .
  have 4: "map fst (resolved s) @ inflight (pc s) @ pending s @ [?n] = [0..<Suc ?n]"
    using 1 by (metis append_assoc upt_Suc_append zero_le)
  have g1: "map fst (resolved (create s)) @ inflight (pc (create s)) @ pending (create s)
      = [0..<length (futures (create s))]"
    using 4 by (simp add: create_def)
  have g2: "futures (create s) = map (\<lambda>(r, t). Fulfilled t) (resolved (create s))
      @ replicate (length (inflight (pc (create s))) + length (pending (create s))) Unsettled"
    using 3 by (simp add: create_def)
  show ?thesis unfolding fifo_inv_def using g1 g2 by (rule conjI)
qed

lemma fifo_inv_resolve:
  assumes a: "fifo_inv s" and pc: "pc s = AwaitViewport p t"
  shows "fifo_inv (while_head (s\<lparr>tabs := tabs s @ [t], futures := resolve p t (futures s),
            resolved := resolved s @ [(p, t)], count := count s + 1\<rparr>))"
proof -
  let ?n = "length (futures s)" and ?k = "length (resolved s)"
  let ?F = "map (\<lambda>(r, t). Fulfilled t) (resolved s)"
  let ?j = "length (pending s)"
  from a pc have 1: "map fst (resolved s) @ [p] @ pending s = [0..<?n]"
    and 2: "futures s = ?F @ replicate (Suc ?j) Unsettled"
    by (simp_all add: fifo_inv_def inflight_def)
  from 1 have "(map fst (resolved s) @ [p]) @ pending s = [0..<?n]" by simp
  then have "map fst (resolved s) @ [p] = [0..<length (map fst (resolved s) @ [p])]"
    by (rule upt_prefix)
  then have "map fst (resolved s) @ [p] = [0..<?k] @ [?k]" by simp
  then have p: "p = ?k" by simp
  from 1 have "length (map fst (resolved s) @ [p] @ pending s) = ?n" by simp
  then have kn: "?k < ?n" by simp
  have fk: "futures s ! ?k = Unsettled"
    by (subst 2) (simp add: nth_append)
  have "resolve p t (futures s) = (futures s)[?k := Fulfilled t]"
    using kn by (simp add: resolve_def p settle_def fk)
  also have "\<dots> = (?F @ replicate (Suc ?j) Unsettled)[?k := Fulfilled t]"
    using 2 by simp
  also have "\<dots> = ?F @ [Fulfilled t] @ replicate ?j Unsettled"
    by (simp add: list_update_append)
  finally have r: "resolve p t (futures s) = ?F @ [Fulfilled t] @ replicate ?j Unsettled" .
  have len: "length (resolve p t (futures s)) = ?n" by (simp add: resolve_def)
  show ?thesis
    by (rule fifo_inv_while_head) (use 1 r len in simp_all)
qed

lemma fifo_inv_step: "fifo_inv s \<Longrightarrow> fifo_inv (step e s)"
proof (cases e)
  case Create
  assume "fifo_inv s"
  then show ?thesis using Create by (simp add: fifo_inv_create)
next
  case (Close t)
  assume "fifo_inv s"
  then show ?thesis using Close by (simp add: fifo_inv_def close_def)
next
  case Resume
  assume a: "fifo_inv s"
  show ?thesis
  proof (cases "pc s")
    case Sleeping
    with a Resume show ?thesis by (simp add: fifo_inv_def resume_def inflight_def)
  next
    case AfterCull
    with a have "fifo_inv (while_head s)"
      by (intro fifo_inv_while_head) (simp_all add: fifo_inv_def inflight_def)
    with AfterCull Resume show ?thesis by (simp add: resume_def)
  next
    case (AwaitNewPage p)
    with a Resume show ?thesis by (simp add: fifo_inv_def resume_def inflight_def)
  next
    case (AwaitViewport p t)
    from fifo_inv_resolve [OF a AwaitViewport] AwaitViewport Resume
    show ?thesis by (simp add: resume_def)
  next
    case (Dead p)
    with a Resume show ?thesis by (simp add: resume_def)
  qed
next
  case Reject
  assume "fifo_inv s"
  then show ?thesis using Reject
    by (cases "pc s") (simp_all add: fifo_inv_def reject_def inflight_def)
qed

lemma fifo_inv_run: "fifo_inv s \<Longrightarrow> fifo_inv (run s evs)"
  by (induction evs arbitrary: s) (simp_all add: fifo_inv_step)

lemma fifo_inv_new: "fifo_inv (new_Tabs m)"
  by (simp add: fifo_inv_def new_Tabs_def inflight_def)

lemma fifo_inv_order: "fifo_inv s \<Longrightarrow> map fst (resolved s) = [0..<length (resolved s)]"
  unfolding fifo_inv_def using upt_prefix [of "map fst (resolved s)"] by fastforce

lemma takeWhile_upt: "b < k \<Longrightarrow> takeWhile (\<lambda>r. r \<noteq> b) [0..<k] = [0..<b]"
proof -
  assume "b < k"
  then have "[0..<k] = [0..<b] @ b # [Suc b..<k]"
    by (metis less_imp_add_positive upt_add_eq_append upt_conv_Cons zero_le le_add1 less_imp_le_nat
        upt_rec)
  then show ?thesis by (simp add: takeWhile_append2 takeWhile_tail)
qed

lemma fifo_parts:
  assumes "a < b"
  shows "map fst (resolved (run (new_Tabs m) evs)) = [0..<length (resolved (run (new_Tabs m) evs))]"
    and "b \<in> fst ` set (resolved (run (new_Tabs m) evs)) \<Longrightarrow> served_before (run (new_Tabs m) evs) a b"
    and "is_settled (run (new_Tabs m) evs) b \<Longrightarrow> is_settled (run (new_Tabs m) evs) a"
proof -
  let ?s = "run (new_Tabs m) evs"
  have inv: "fifo_inv ?s" by (rule fifo_inv_run [OF fifo_inv_new])
  then show ord: "map fst (resolved ?s) = [0..<length (resolved ?s)]" by (rule fifo_inv_order)
  {
    assume "b \<in> fst ` set (resolved ?s)"
    then have "b \<in> set (map fst (resolved ?s))" by simp
    then have "b < length (resolved ?s)" by (subst (asm) ord) simp
    then show "served_before ?s a b" using assms
      unfolding served_before_def by (subst ord) (simp add: takeWhile_upt)
  }
  {
    assume b: "is_settled ?s b"
    let ?k = "length (resolved ?s)"
    from inv obtain j where f: "futures ?s = map (\<lambda>(r, t). Fulfilled t) (resolved ?s) @ replicate j Unsettled"
      unfolding fifo_inv_def by blast
    from b have bn: "b < length (futures ?s)" and bu: "futures ?s ! b \<noteq> Unsettled"
      by (simp_all add: is_settled_def)
    have "b < ?k"
    proof (rule ccontr)
      assume "\<not> b < ?k"
      then have "futures ?s ! b = Unsettled" using bn
        by (subst f, subst (asm) f) (simp add: nth_append)
      with bu show False by simp
    qed
    with assms have ak: "a < ?k" by simp
    then have "futures ?s ! a = (\<lambda>(r, t). Fulfilled t) (resolved ?s ! a)"
      by (subst f) (simp add: nth_append)
    then have "futures ?s ! a \<noteq> Unsettled" by (simp split: prod.splits)
    moreover have "a < length (futures ?s)" using ak by (subst f) simp
    ultimately show "is_settled ?s a" by (simp add: is_settled_def)
  }
qed

lemma fifo_run_state:
  "run (new_Tabs 1) fifo_run =
     \<lparr>tabs = [1], pending = [], max_tabs = 1, count = 2, pages = [True, False],
      futures = [Fulfilled 0, Fulfilled 1], resolved = [(0, 0), (1, 1)], pc = Sleeping\<rparr>"
  by (simp add: fifo_run_def pool_eval)

text \<open>
  C2.  First in, first out: requests are resolved in exactly the order of their
  \<^verbatim>\<open>create()\<close> calls.  For a pool built with any capacity and any sequence of events,
  the \<open>i\<close>-th call of a \<^verbatim>\<open>resolve\<close> function is for the \<open>i\<close>-th \<^verbatim>\<open>create()\<close>
  call; so when call \<open>a\<close> was made before call \<open>b\<close> and \<open>b\<close> has been resolved,
  \<open>a\<close> was resolved before it, and at no moment is the promise of \<open>b\<close> settled while
  that of \<open>a\<close> is not.
\<close>

theorem fifo_service_order:
  "a < b \<Longrightarrow>
   map fst (resolved (run (new_Tabs m) evs)) = [0..<length (resolved (run (new_Tabs m) evs))] \<and>
   (b \<in> fst ` set (resolved (run (new_Tabs m) evs)) \<longrightarrow>
      served_before (run (new_Tabs m) evs) a b) \<and>
   (is_settled (run (new_Tabs m) evs) b \<longrightarrow> is_settled (run (new_Tabs m) evs) a)"
  using fifo_parts [of a b m evs] by blast

theorem fifo_service_order_witness:
  "(0::nat) < 1 \<and> 1 \<in> fst ` set (resolved (run (new_Tabs 1) fifo_run)) \<and>
   served_before (run (new_Tabs 1) fifo_run) 0 1 \<and>
   is_settled (run (new_Tabs 1) fifo_run) 1 \<and> is_settled (run (new_Tabs 1) fifo_run) 0"
proof -
  have 1: "(1::nat) \<in> fst ` set (resolved (run (new_Tabs 1) fifo_run))"
    unfolding fifo_run_state by simp
  have 2: "is_settled (run (new_Tabs 1) fifo_run) 1"
    unfolding fifo_run_state by (simp add: is_settled_def)
  from fifo_service_order [of 0 1 1 fifo_run] 1 2 show ?thesis by simp
qed

section \<open>The lifetime counter\<close>

lemma count_inv_while_head:
  assumes "map snd (resolved s) = [0..<count s]" "length (pages s) = count s"
  shows "count_inv (while_head s)"
  using assms by (auto simp: count_inv_def while_head_def split: list.splits)

lemma count_inv_step: "count_inv s \<Longrightarrow> count_inv (step e s)"
proof (cases e)
  case Create
  assume "count_inv s"
  then show ?thesis using Create by (auto simp: count_inv_def create_def split: pc.splits)
next
  case (Close t)
  assume "count_inv s"
  then show ?thesis using Close by (auto simp: count_inv_def close_def split: pc.splits)
next
  case Resume
  assume a: "count_inv s"
  show ?thesis
  proof (cases "pc s")
    case Sleeping
    with a Resume show ?thesis by (simp add: count_inv_def resume_def)
  next
    case AfterCull
    with a have "count_inv (while_head s)"
      by (intro count_inv_while_head) (simp_all add: count_inv_def)
    with AfterCull Resume show ?thesis by (simp add: resume_def)
  next
    case (AwaitNewPage p)
    with a Resume show ?thesis by (simp add: count_inv_def resume_def)
  next
    case (AwaitViewport p t)
    with a have "count_inv (while_head (s\<lparr>tabs := tabs s @ [t], futures := resolve p t (futures s),
        resolved := resolved s @ [(p, t)], count := count s + 1\<rparr>))"
      by (intro count_inv_while_head) (simp_all add: count_inv_def)
    with AwaitViewport Resume show ?thesis by (simp add: resume_def)
  next
    case (Dead p)
    with a Resume show ?thesis by (simp add: resume_def)
  qed
next
  case Reject
  assume "count_inv s"
  then show ?thesis using Reject
    by (cases "pc s") (simp_all add: count_inv_def reject_def)
qed

lemma count_inv_run: "count_inv s \<Longrightarrow> count_inv (run s evs)"
  by (induction evs arbitrary: s) (simp_all add: count_inv_step)

lemma count_inv_new: "count_inv (new_Tabs m)"
  by (simp add: count_inv_def new_Tabs_def)

lemma count_step_mono: "count s \<le> count (step e s)"
  by (cases e) (auto simp: create_def close_def resume_def reject_def while_head_def
      split: pc.splits list.splits)

lemma count_run_mono: "count s \<le> count (run s evs)"
proof (induction evs arbitrary: s)
  case Nil
  show ?case by simp
next
  case (Cons e es)
  have "count s \<le> count (step e s)" by (rule count_step_mono)
  also have "\<dots> \<le> count (run (step e s) es)" by (rule Cons.IH)
  finally show ?case by simp
qed

lemma run_append: "run s (es @ es') = run (run s es) es'"
  by (induction es arbitrary: s) simp_all

text \<open>
  C4.  The counter is exact: along any run of a pool it never decreases; a
  \<^verbatim>\<open>create()\<close> call leaves it as it is; the tabs handed out so far are the pages
  \<open>0, \<dots>, count - 1\<close> of the browser, one for each increment and all different; and
  whenever the background task is between two passes (or has just culled) the browser has
  made exactly \<open>count\<close> pages for the pool, however many of them are closed by now.
\<close>

theorem counter_exact:
  "count (run (new_Tabs m) evs) \<le> count (run (new_Tabs m) (evs @ evs')) \<and>
   count (step Create (run (new_Tabs m) evs)) = count (run (new_Tabs m) evs) \<and>
   map snd (resolved (run (new_Tabs m) evs)) = [0..<count (run (new_Tabs m) evs)] \<and>
   (pc (run (new_Tabs m) evs) = Sleeping \<or> pc (run (new_Tabs m) evs) = AfterCull \<longrightarrow>
      length (pages (run (new_Tabs m) evs)) = count (run (new_Tabs m) evs))"
proof -
  let ?s = "run (new_Tabs m) evs"
  have inv: "count_inv ?s" by (rule count_inv_run [OF count_inv_new])
  have 1: "count ?s \<le> count (run (new_Tabs m) (evs @ evs'))"
    by (simp add: run_append count_run_mono)
  have 2: "count (step Create ?s) = count ?s" by (simp add: create_def)
  from inv have 3: "map snd (resolved ?s) = [0..<count ?s]" by (simp add: count_inv_def)
  from inv have 4: "pc ?s = Sleeping \<or> pc ?s = AfterCull \<longrightarrow> length (pages ?s) = count ?s"
    by (auto simp: count_inv_def)
  from 1 2 3 4 show ?thesis by blast
qed

theorem counter_exact_witness:
  "pc (run (new_Tabs 1) fifo_run) = Sleeping \<and>
   length (pages (run (new_Tabs 1) fifo_run)) = count (run (new_Tabs 1) fifo_run) \<and>
   count (run (new_Tabs 1) fifo_run) = 2 \<and>
   length (tabs (run (new_Tabs 1) fifo_run)) = 1"
proof -
  have 1: "pc (run (new_Tabs 1) fifo_run) = Sleeping" unfolding fifo_run_state by simp
  have 2: "count (run (new_Tabs 1) fifo_run) = 2" unfolding fifo_run_state by simp
  have 3: "length (tabs (run (new_Tabs 1) fifo_run)) = 1" unfolding fifo_run_state by simp
  from counter_exact [of 1 fifo_run "[]"] 1 2 3 show ?thesis by simp
qed

section \<open>Requests that are never served\<close>

lemma isClosed_update: "t' \<noteq> t \<Longrightarrow> isClosed (ps[t' := True]) t = isClosed ps t"
  by (simp add: isClosed_def)

lemma starved_step:
  assumes st: "starved s" and nc: "\<forall>t \<in> set (tabs s). e \<noteq> Close t"
  shows "starved (step e s) \<and> tabs (step e s) = tabs s \<and> resolved (step e s) = resolved s \<and>
         take (length (futures s)) (futures (step e s)) = futures s"
proof (cases e)
  case Create
  with st show ?thesis by (auto simp: starved_def create_def)
next
  case (Close t')
  with nc have "t' \<notin> set (tabs s)" by auto
  then have "\<forall>t \<in> set (tabs s). isClosed ((pages s)[t' := True]) t = isClosed (pages s) t"
    by (metis isClosed_update)
  with st Close show ?thesis by (auto simp: starved_def close_def)
next
  case Resume
  from st have c: "cullDeadTabs (pages s) (tabs s) = tabs s"
    by (simp add: starved_def cullDeadTabs_def cull_from_none_closed)
  from st have "pc s = Sleeping \<or> pc s = AfterCull" by (simp add: starved_def)
  then show ?thesis
  proof
    assume "pc s = Sleeping"
    with st c Resume show ?thesis by (simp add: starved_def resume_def)
  next
    assume "pc s = AfterCull"
    with st Resume show ?thesis by (simp add: starved_def resume_def while_head_def)
  qed
next
  case Reject
  with st show ?thesis by (auto simp: starved_def reject_def)
qed

lemma length_futures_step: "length (futures s) \<le> length (futures (step e s))"
  by (cases e) (auto simp: create_def close_def resume_def reject_def while_head_def resolve_def
      split: pc.splits list.splits)

lemma length_futures_run: "length (futures s) \<le> length (futures (run s evs))"
proof (induction evs arbitrary: s)
  case Nil
  show ?case by simp
next
  case (Cons e es)
  have "length (futures s) \<le> length (futures (step e s))" by (rule length_futures_step)
  also have "\<dots> \<le> length (futures (run (step e s) es))" by (rule Cons.IH)
  finally show ?case by simp
qed

lemma take_take_le: "n \<le> n' \<Longrightarrow> take n' xs = ys \<Longrightarrow> take n xs = take n ys"
  by (metis min.absorb1 take_take)

lemma starved_run:
  assumes "starved s" and "\<forall>t \<in> set (tabs s). Close t \<notin> set evs"
  shows "resolved (run s evs) = resolved s \<and>
         take (length (futures s)) (futures (run s evs)) = futures s"
  using assms
proof (induction evs arbitrary: s)
  case Nil
  show ?case by simp
next
  case (Cons e es)
  from Cons.prems have nc: "\<forall>t \<in> set (tabs s). e \<noteq> Close t" by auto
  note st = starved_step [OF Cons.prems(1) nc]
  from st Cons.prems(2) have nc': "\<forall>t \<in> set (tabs (step e s)). Close t \<notin> set es" by auto
  from st have "starved (step e s)" by simp
  from Cons.IH [OF this nc']
  have r: "resolved (run (step e s) es) = resolved (step e s)"
    and f: "take (length (futures (step e s))) (futures (run (step e s) es)) = futures (step e s)"
    by simp_all
  have "take (length (futures s)) (futures (run (step e s) es))
      = take (length (futures s)) (futures (step e s))"
    using length_futures_step f by (rule take_take_le)
  with r st show ?case by simp
qed

lemma dead_step:
  "is_dead s \<Longrightarrow> is_dead (step e s) \<and> resolved (step e s) = resolved s \<and>
     take (length (futures s)) (futures (step e s)) = futures s"
  by (cases e; cases "pc s")
     (simp_all add: is_dead_def create_def close_def resume_def reject_def)

lemma dead_run:
  "is_dead s \<Longrightarrow> resolved (run s evs) = resolved s \<and>
     take (length (futures s)) (futures (run s evs)) = futures s"
proof (induction evs arbitrary: s)
  case Nil
  show ?case by simp
next
  case (Cons e es)
  note st = dead_step [OF Cons.prems, of e]
  then have "is_dead (step e s)" by simp
  from Cons.IH [OF this]
  have r: "resolved (run (step e s) es) = resolved (step e s)"
    and f: "take (length (futures (step e s))) (futures (run (step e s) es)) = futures (step e s)"
    by simp_all
  have "take (length (futures s)) (futures (run (step e s) es))
      = take (length (futures s)) (futures (step e s))"
    using length_futures_step f by (rule take_take_le)
  with r st show ?case by simp
qed

lemma never_rejected_inv: "fifo_inv s \<Longrightarrow> Rejected \<notin> set (futures s)"
proof -
  assume "fifo_inv s"
  then obtain j where f: "futures s = map (\<lambda>(r, t). Fulfilled t) (resolved s) @ replicate j Unsettled"
    unfolding fifo_inv_def by blast
  show ?thesis by (subst f) (auto split: prod.splits)
qed

lemma full_pool_state:
  "full_pool = \<lparr>tabs = [0], pending = [1], max_tabs = 1, count = 1, pages = [False],
      futures = [Fulfilled 0, Unsettled], resolved = [(0, 0)], pc = Sleeping\<rparr>"
  by (simp add: full_pool_def pool_eval)

lemma dead_pool_state:
  "dead_pool = \<lparr>tabs = [], pending = [], max_tabs = 1, count = 0, pages = [],
      futures = [Unsettled], resolved = [], pc = Dead 0\<rparr>"
  by (simp add: dead_pool_def pool_eval)

text \<open>
  C6.  \<^verbatim>\<open>create()\<close> has no error path.  The call itself is a total function of the
  pool: it only queues a resolver.  In no state that a pool can reach is any promise
  rejected.  A promise is settled by the background task alone, so there is no timeout
  and no cancellation: from a pool whose open set is full of tabs that are not closed, as
  long as none of those tabs is closed, no request is resolved and the promises stay as
  they are, whatever else happens and however long; and once a browser call of the
  background task has failed, no request is resolved ever again.
\<close>

theorem create_never_fails:
  "Rejected \<notin> set (futures (run (new_Tabs m) evs)) \<and>
   (starved s \<and> (\<forall>t \<in> set (tabs s). Close t \<notin> set evs') \<longrightarrow>
      resolved (run s evs') = resolved s \<and>
      take (length (futures s)) (futures (run s evs')) = futures s) \<and>
   (is_dead s \<longrightarrow>
      resolved (run s evs') = resolved s \<and>
      take (length (futures s)) (futures (run s evs')) = futures s)"
proof -
  have "fifo_inv (run (new_Tabs m) evs)" by (rule fifo_inv_run [OF fifo_inv_new])
  then have 1: "Rejected \<notin> set (futures (run (new_Tabs m) evs))" by (rule never_rejected_inv)
  from 1 starved_run [of s evs'] dead_run [of s evs'] show ?thesis by blast
qed

theorem create_never_fails_witness:
  "starved full_pool \<and>
   list_all (\<lambda>t. Close t \<notin> set [Resume, Resume, Create, Resume, Close 1]) (tabs full_pool) \<and>
   resolved (run full_pool [Resume, Resume, Create, Resume, Close 1]) = resolved full_pool \<and>
   is_dead dead_pool \<and>
   resolved (run dead_pool [Resume, Create, Close 0, Resume]) = resolved dead_pool"
proof -
  have 1: "starved full_pool" by (simp add: full_pool_state starved_def isClosed_def)
  have 2: "\<forall>t \<in> set (tabs full_pool). Close t \<notin> set [Resume, Resume, Create, Resume, Close 1]"
    by (simp add: full_pool_state)
  have 3: "is_dead dead_pool" by (simp add: dead_pool_state is_dead_def)
  from create_never_fails [of 0 "[]" full_pool "[Resume, Resume, Create, Resume, Close 1]"] 1 2
  have 4: "resolved (run full_pool [Resume, Resume, Create, Resume, Close 1]) = resolved full_pool"
    by blast
  from create_never_fails [of 0 "[]" dead_pool "[Resume, Create, Close 0, Resume]"] 3
  have 5: "resolved (run dead_pool [Resume, Create, Close 0, Resume]) = resolved dead_pool"
    by blast
  from 1 2 3 4 5 show ?thesis by (simp add: list_all_iff)
qed

section \<open>The scenario with capacity two\<close>

lemma first_pass_state:
  "run (new_Tabs 2) first_pass =
     \<lparr>tabs = [0, 1], pending = [2], max_tabs = 2, count = 2, pages = [False, False],
      futures = [Fulfilled 0, Fulfilled 1, Unsettled], resolved = [(0, 0), (1, 1)],
      pc = Sleeping\<rparr>"
  by (simp add: first_pass_def pool_eval)

lemma second_pass_state:
  "run (run (new_Tabs 2) first_pass) second_pass =
     \<lparr>tabs = [1, 2], pending = [], max_tabs = 2, count = 3, pages = [True, False, False],
      futures = [Fulfilled 0, Fulfilled 1, Fulfilled 2], resolved = [(0, 0), (1, 1), (2, 2)],
      pc = Sleeping\<rparr>"
  by (simp add: first_pass_state) (simp add: second_pass_def pool_eval)

text \<open>
  C5.  Capacity 2 and three requests R1, R2, R3 (numbered 0, 1, 2) made in this order
  right after the constructor.  When the first pass has ended, R1 and R2 are fulfilled,
  with the tabs 0 and 1, and R3 is queued and unsettled; it stays unsettled for as long
  as neither tab is closed.  When tab 0, the handle of R1, is closed, the next pass
  fulfils R3; after it the open set holds tab 1, the handle of R2, still open, and the
  new tab 2, and the counter is 3.
\<close>

theorem scenario_capacity_two:
  "pc (run (new_Tabs 2) first_pass) = Sleeping \<and>
   futures (run (new_Tabs 2) first_pass) = [Fulfilled 0, Fulfilled 1, Unsettled] \<and>
   pending (run (new_Tabs 2) first_pass) = [2] \<and>
   (Close 0 \<notin> set evs \<and> Close 1 \<notin> set evs \<longrightarrow>
      futures (run (run (new_Tabs 2) first_pass) evs) ! 2 = Unsettled) \<and>
   pc (run (run (new_Tabs 2) first_pass) second_pass) = Sleeping \<and>
   futures (run (run (new_Tabs 2) first_pass) second_pass)
     = [Fulfilled 0, Fulfilled 1, Fulfilled 2] \<and>
   tabs (run (run (new_Tabs 2) first_pass) second_pass) = [1, 2] \<and>
   \<not> isClosed (pages (run (run (new_Tabs 2) first_pass) second_pass)) 1 \<and>
   count (run (run (new_Tabs 2) first_pass) second_pass) = 3"
proof -
  let ?s1 = "run (new_Tabs 2) first_pass"
  have st: "starved ?s1"
    by (simp add: first_pass_state starved_def isClosed_def)
  have len: "length (futures ?s1) = 3" by (simp add: first_pass_state)
  have f1: "futures ?s1 = [Fulfilled 0, Fulfilled 1, Unsettled]" by (simp add: first_pass_state)
  have w: "Close 0 \<notin> set evs \<and> Close 1 \<notin> set evs \<longrightarrow> futures (run ?s1 evs) ! 2 = Unsettled"
  proof
    assume nc: "Close 0 \<notin> set evs \<and> Close 1 \<notin> set evs"
    have "\<forall>t \<in> set (tabs ?s1). Close t \<notin> set evs"
      using nc by (simp add: first_pass_state)
    from starved_run [OF st this]
    have "take (length (futures ?s1)) (futures (run ?s1 evs)) = futures ?s1" by simp
    then have t3: "take 3 (futures (run ?s1 evs)) = [Fulfilled 0, Fulfilled 1, Unsettled]"
      by (simp only: len) (simp only: f1)
    have "futures (run ?s1 evs) ! 2 = take 3 (futures (run ?s1 evs)) ! 2" by simp
    also have "\<dots> = [Fulfilled 0, Fulfilled 1, Unsettled] ! 2" by (simp only: t3)
    also have "\<dots> = Unsettled" by simp
    finally show "futures (run ?s1 evs) ! 2 = Unsettled" .
  qed
  show ?thesis
    using w by (simp add: second_pass_state isClosed_def) (simp add: first_pass_state)
qed

theorem scenario_capacity_two_witness:
  "Close 0 \<notin> set [Resume, Create, Resume, Resume, Close 2] \<and>
   Close 1 \<notin> set [Resume, Create, Resume, Resume, Close 2] \<and>
   futures (run (run (new_Tabs 2) first_pass) [Resume, Create, Resume, Resume, Close 2]) ! 2
     = Unsettled \<and>
   count (run (run (new_Tabs 2) first_pass) second_pass) = 3"
  using scenario_capacity_two [of "[Resume, Create, Resume, Resume, Close 2]"] by simp

section \<open>The retry loop of \<^verbatim>\<open>savePages\<close>\<close>












section \<open>Operations before login\<close>

text \<open>
  Every operation that starts with the guard fails with \<^verbatim>\<open>NotLoggedInError\<close> while
  the pool is unset, before anything else happens; \<^verbatim>\<open>saveMessages\<close> and
  \<^verbatim>\<open>saveActivities\<close> do so too when their directory could be made, through their
  sub-operations.
\<close>

lemma guarded_before_login:
  "savePages False listing page_loops = Inl NotLoggedInError"
  "saveMessagesInbox False mkdir r = Inl NotLoggedInError"
  "saveMessagesDrafts False mkdir r = Inl NotLoggedInError"
  "saveActivitiesAssignments False mkdir r = Inl NotLoggedInError"
  "saveActivitiesAssignmentWork False r = Inl NotLoggedInError"
  "saveActivitiesDiscussions False r = Inl NotLoggedInError"
  "saveGrades False r = Inl NotLoggedInError"
  "saveClass False r rs = Inl NotLoggedInError"
  "saveClasses False r rs = Inl NotLoggedInError"
  by (simp_all add: guard_def savePages_def saveMessagesInbox_def saveMessagesDrafts_def
      saveActivitiesAssignments_def saveActivitiesAssignmentWork_def
      saveActivitiesDiscussions_def saveGrades_def saveClass_def saveClasses_def)

lemma unguarded_before_login_mkdir_ok:
  "saveMessages False (Inr ()) second_first inbox_mkdir inbox drafts_mkdir drafts
     = Inl NotLoggedInError"
  "saveActivities False (Inr ()) second_first assignments_mkdir assignments discussions
     = Inl NotLoggedInError"
  by (simp_all add: saveMessages_def saveActivities_def and_then_def settling_order_def
      guarded_before_login)

text \<open>
  C8.  The specification asks that every scraping operation called while the pool is unset
  fails with \<^verbatim>\<open>NotLoggedInError\<close>.  The code does not do this everywhere.
  \<^verbatim>\<open>saveMessages\<close> and \<^verbatim>\<open>saveActivities\<close> lack the guard
  that every other operation starts with, and touch the file system first: when
  \<^verbatim>\<open>fs.mkdir\<close> fails (here because the class directory does not exist), they fail
  with the error of the file system, which is not \<^verbatim>\<open>NotLoggedInError\<close>.
\<close>

theorem unguarded_before_login_mkdir_fails:
  "saveMessages False (Inl (Error ''ENOENT'')) second_first inbox_mkdir inbox drafts_mkdir drafts
     = Inl (Error ''ENOENT'') \<and>
   saveActivities False (Inl (Error ''ENOENT'')) second_first assignments_mkdir assignments
       discussions
     = Inl (Error ''ENOENT'') \<and>
   Inl (Error ''ENOENT'') \<noteq> (Inl NotLoggedInError :: unit outcome)"
  by (simp add: saveMessages_def saveActivities_def and_then_def)

section \<open>The exit status\<close>












section \<open>Sanitised file names\<close>

lemma in_class_output_char: "in_class c \<Longrightarrow> output_char c"
  by (auto simp: in_class_def output_char_def ascii_letter_def ascii_digit_def)

text \<open>
  C10.  \<^verbatim>\<open>sanitizeFilename\<close> is idempotent, and its result holds only ASCII
  letters, digits, parentheses, square brackets, hyphens, commas, spaces and underscores.
\<close>

theorem sanitizeFilename_idempotent:
  "sanitizeFilename (sanitizeFilename s) = sanitizeFilename s \<and>
   (\<forall>c \<in> set (sanitizeFilename s). output_char c)"
proof
  show "sanitizeFilename (sanitizeFilename s) = sanitizeFilename s"
    by (simp add: sanitizeFilename_def)
  show "\<forall>c \<in> set (sanitizeFilename s). output_char c"
    by (auto simp: sanitizeFilename_def in_class_output_char) (simp add: output_char_def underscore_def)
qed

theorem sanitizeFilename_idempotent_witness:
  "sanitizeFilename [0x61, 0x2F, 0x42, 0x3F, 0x2E, 0x70, 0x64, 0x66]
     = [0x61, 0x5F, 0x42, 0x5F, 0x5F, 0x70, 0x64, 0x66] \<and>
   sanitizeFilename (sanitizeFilename [0x61, 0x2F, 0x42, 0x3F, 0x2E, 0x70, 0x64, 0x66])
     = sanitizeFilename [0x61, 0x2F, 0x42, 0x3F, 0x2E, 0x70, 0x64, 0x66] \<and>
   list_all output_char (sanitizeFilename [0x61, 0x2F, 0x42, 0x3F, 0x2E, 0x70, 0x64, 0x66])"
  using sanitizeFilename_idempotent [of "[0x61, 0x2F, 0x42, 0x3F, 0x2E, 0x70, 0x64, 0x66]"]
  by (simp add: sanitizeFilename_def in_class_def underscore_def list_all_iff)

end
